theory Spec2Isabelle
  imports Complex_Main "HOL-Library.Word"
begin

section \<open>Data model of \<^verbatim>\<open>src/main.cpp\<close>\<close>

text \<open>
  The program is one translation unit: \<^verbatim>\<open>dist2\<close> and \<^verbatim>\<open>runSimulation\<close>
  (validation, lattice construction, two pairwise scans, damage, VTK output).

  \<^item> \<^verbatim>\<open>int\<close> is a 32-bit two's complement word (\<open>32 word\<close>): \<open>+\<close> and \<open>*\<close>
    wrap around, \<open>sint\<close> reads the value. (C++ leaves signed overflow undefined; the
    wrap-around is what the usual targets compute.)
  \<^item> \<^verbatim>\<open>double\<close> is \<open>real\<close>: arithmetic is exact, there is no rounding, infinity
    or NaN.
  \<^item> Loop counters of \<^verbatim>\<open>for (int k = a; k < b; ++k)\<close> are natural numbers: the
    counter starts at a non-negative value and stays below an \<^verbatim>\<open>int\<close> bound, so
    \<^verbatim>\<open>++k\<close> never wraps.
  \<^item> A conversion \<^verbatim>\<open>static_cast<int>(d)\<close> whose truncated value does not fit, a
    vector constructed with a negative size and an index outside a vector end the
    run with an error value.
  \<^item> Memory is unbounded: no vector is too large to allocate.
\<close>

type_synonym int32 = "32 word"

record Particle =
  p_x :: real
  p_y :: real

datatype error =
    InvalidParameter
  | FloatToIntOverflow
  | LengthError
  | IndexOutOfRange
  | IOFailure

text \<open>\<^verbatim>\<open>dist2\<close>, lines 23-27.\<close>

definition dist2 :: "Particle \<Rightarrow> Particle \<Rightarrow> real" where
  "dist2 a b =
     (let dx = p_x a - p_x b;
          dy = p_y a - p_y b
      in dx * dx + dy * dy)"

text \<open>\<^verbatim>\<open>static_cast<int>(d)\<close>: truncation towards zero, defined only when the
  truncated value is representable.\<close>

definition INT_MAX :: int where
  "INT_MAX = 2147483647"

definition INT_MIN :: int where
  "INT_MIN = - 2147483648"

definition trunc :: "real \<Rightarrow> int" where
  "trunc d = (if 0 \<le> d then \<lfloor>d\<rfloor> else \<lceil>d\<rceil>)"

definition static_cast_int :: "real \<Rightarrow> error + int32" where
  "static_cast_int d =
     (if INT_MIN \<le> trunc d \<and> trunc d \<le> INT_MAX
      then Inr (word_of_int (trunc d))
      else Inl FloatToIntOverflow)"

text \<open>\<^verbatim>\<open>static_cast<double>(n)\<close> for an \<^verbatim>\<open>int\<close>.\<close>

definition static_cast_double :: "int32 \<Rightarrow> real" where
  "static_cast_double n = real_of_int (sint n)"

text \<open>The counted loop \<^verbatim>\<open>for (int k = i; k < n; ++k) s = body k s\<close>.\<close>

function for_loop :: "nat \<Rightarrow> nat \<Rightarrow> (nat \<Rightarrow> 's \<Rightarrow> 's) \<Rightarrow> 's \<Rightarrow> 's" where
  "for_loop i n body s = (if i < n then for_loop (Suc i) n body (body i s) else s)"
  by pat_completeness auto
termination
  by (relation "measure (\<lambda>(i, n, body, s). n - i)") auto

declare for_loop.simps [simp del]

text \<open>The bound of such a loop when it is an \<^verbatim>\<open>int\<close> variable: a bound that is
  zero or negative gives no iteration.\<close>

definition bound :: "int32 \<Rightarrow> nat" where
  "bound n = nat (sint n)"

subsection \<open>Step 1: parameter check (lines 118-121)\<close>

definition invalid_input :: "real \<Rightarrow> real \<Rightarrow> real \<Rightarrow> real \<Rightarrow> real \<Rightarrow> bool" where
  "invalid_input Lx Ly dx phi m \<longleftrightarrow>
     dx \<le> 0 \<or> Lx \<le> 0 \<or> Ly \<le> 0 \<or> phi < 0 \<or> phi > 1 \<or> m \<le> 0"

subsection \<open>Step 2: the regular grid (lines 129-146)\<close>

record Grid =
  Nx :: int32
  Ny :: int32
  N :: int32
  particles :: "Particle list"

text \<open>\<^verbatim>\<open>std::vector<T> v(n, init)\<close> with an \<^verbatim>\<open>int\<close> size: a negative size converts
  to a huge unsigned one and the constructor throws \<^verbatim>\<open>std::length_error\<close>.\<close>

definition vector :: "int32 \<Rightarrow> 'a \<Rightarrow> error + 'a list" where
  "vector n init = (if sint n < 0 then Inl LengthError else Inr (replicate (bound n) init))"

text \<open>The body of the inner fill loop, lines 142-144.\<close>

definition fill_particle ::
  "real \<Rightarrow> int32 \<Rightarrow> nat \<Rightarrow> nat \<Rightarrow> error + Particle list \<Rightarrow> error + Particle list" where
  "fill_particle dx nx j i acc =
     (case acc of
        Inl e \<Rightarrow> Inl e
      | Inr ps \<Rightarrow>
          (let id = (word_of_nat j :: int32) * nx + word_of_nat i in
           if 0 \<le> sint id \<and> nat (sint id) < length ps
           then Inr (ps[nat (sint id) :=
                  (ps ! nat (sint id))\<lparr>p_x := real i * dx, p_y := real j * dx\<rparr>])
           else Inl IndexOutOfRange))"

definition buildGrid :: "real \<Rightarrow> real \<Rightarrow> real \<Rightarrow> error + Grid" where
  "buildGrid Lx Ly dx =
     (case static_cast_int (real_of_int \<lfloor>Lx / dx\<rfloor>) of
        Inl e \<Rightarrow> Inl e
      | Inr fx \<Rightarrow>
     (case static_cast_int (real_of_int \<lfloor>Ly / dx\<rfloor>) of
        Inl e \<Rightarrow> Inl e
      | Inr fy \<Rightarrow>
          (let nx = fx + 1;
               ny = fy + 1;
               n = nx * ny
           in case vector n \<lparr>p_x = 0, p_y = 0\<rparr> of
                Inl e \<Rightarrow> Inl e
              | Inr ps0 \<Rightarrow>
                 (case for_loop 0 (bound ny)
                         (\<lambda>j. for_loop 0 (bound nx) (fill_particle dx nx j)) (Inr ps0) of
                    Inl e \<Rightarrow> Inl e
                  | Inr ps \<Rightarrow> Inr \<lparr>Nx = nx, Ny = ny, N = n, particles = ps\<rparr>))))"

subsection \<open>Step 3: neighbour counts (lines 151-168)\<close>

text \<open>The body of the inner loop of the first scan, lines 162-166. The vectors have
  \<^verbatim>\<open>N\<close> elements and both counters stay below \<^verbatim>\<open>N\<close>.\<close>

definition count_bond :: "Particle list \<Rightarrow> real \<Rightarrow> nat \<Rightarrow> nat \<Rightarrow> int32 list \<Rightarrow> int32 list" where
  "count_bond ps delta2 i j nt =
     (if dist2 (ps ! i) (ps ! j) \<le> delta2
      then (let nt1 = nt[i := nt ! i + 1]
            in nt1[j := nt1 ! j + 1])
      else nt)"

definition first_scan :: "int32 \<Rightarrow> Particle list \<Rightarrow> real \<Rightarrow> int32 list \<Rightarrow> int32 list" where
  "first_scan n ps delta2 nt0 =
     for_loop 0 (bound n) (\<lambda>i. for_loop (Suc i) (bound n) (count_bond ps delta2 i)) nt0"

subsection \<open>Step 4: pre-damage (lines 176-198)\<close>

text \<open>
  The random engine is an input: \<open>uniform01 k\<close> is the value the \<open>k\<close>-th call of
  \<^verbatim>\<open>uniform01(gen)\<close> returns, and the field \<open>gen\<close> counts the calls made so far.
\<close>

record PreDamage =
  N_broken :: "int32 list"
  totalBonds :: int32
  brokenBonds :: int32
  gen :: nat

text \<open>The body of the inner loop of the second scan, lines 185-196.\<close>

definition break_bond ::
  "Particle list \<Rightarrow> real \<Rightarrow> real \<Rightarrow> (nat \<Rightarrow> real) \<Rightarrow> nat \<Rightarrow> nat \<Rightarrow> PreDamage \<Rightarrow> PreDamage" where
  "break_bond ps delta2 d_phi uniform01 i j s =
     (if dist2 (ps ! i) (ps ! j) \<le> delta2
      then (let s1 = s\<lparr>totalBonds := totalBonds s + 1\<rparr>;
                r = uniform01 (gen s1);
                s2 = s1\<lparr>gen := Suc (gen s1)\<rparr>
            in if r < d_phi
               then (let s3 = s2\<lparr>N_broken := (N_broken s2)[i := N_broken s2 ! i + 1]\<rparr>;
                         s4 = s3\<lparr>N_broken := (N_broken s3)[j := N_broken s3 ! j + 1]\<rparr>
                     in s4\<lparr>brokenBonds := brokenBonds s4 + 1\<rparr>)
               else s2)
      else s)"

definition second_scan ::
  "int32 \<Rightarrow> Particle list \<Rightarrow> real \<Rightarrow> real \<Rightarrow> (nat \<Rightarrow> real) \<Rightarrow> PreDamage \<Rightarrow> PreDamage" where
  "second_scan n ps delta2 d_phi uniform01 s0 =
     for_loop 0 (bound n)
       (\<lambda>i. for_loop (Suc i) (bound n) (break_bond ps delta2 d_phi uniform01 i)) s0"

text \<open>The counters before the second scan, lines 155 and 180-181.\<close>

definition initial :: "int32 \<Rightarrow> PreDamage" where
  "initial n = \<lparr>N_broken = replicate (bound n) 0, totalBonds = 0, brokenBonds = 0, gen = 0\<rparr>"

text \<open>Lines 200-203.\<close>

definition realized :: "int32 \<Rightarrow> int32 \<Rightarrow> real" where
  "realized b t =
     (if 0 < sint t then static_cast_double b / static_cast_double t else 0)"

subsection \<open>Step 5: local damage (lines 212-221)\<close>

definition damage_at :: "int32 list \<Rightarrow> int32 list \<Rightarrow> nat \<Rightarrow> real list \<Rightarrow> real list" where
  "damage_at nt nb i d =
     (if 0 < sint (nt ! i)
      then d[i := static_cast_double (nb ! i) / static_cast_double (nt ! i)]
      else d[i := 0])"

definition computeDamage :: "int32 \<Rightarrow> int32 list \<Rightarrow> int32 list \<Rightarrow> real list \<Rightarrow> real list" where
  "computeDamage n nt nb d0 = for_loop 0 (bound n) (damage_at nt nb) d0"

subsection \<open>Step 6: the VTK file (lines 227-261)\<close>

text \<open>Decimal rendering of an \<^verbatim>\<open>int\<close>, as \<^verbatim>\<open>std::to_string\<close> and \<^verbatim>\<open>operator<<\<close>
  produce it.\<close>

definition digit :: "nat \<Rightarrow> char" where
  "digit k = ''0123456789'' ! k"

function show_nat :: "nat \<Rightarrow> string" where
  "show_nat k = (if k < 10 then [digit k] else show_nat (k div 10) @ [digit (k mod 10)])"
  by pat_completeness auto
termination
  by (relation "measure (\<lambda>k. k)") auto

declare show_nat.simps [simp del]

definition show_int :: "int \<Rightarrow> string" where
  "show_int k = (if k < 0 then CHR ''-'' # show_nat (nat (- k)) else show_nat (nat k))"

definition to_string :: "int32 \<Rightarrow> string" where
  "to_string k = show_int (sint k)"

definition nl :: string where
  "nl = [CHR 0x0A]"

text \<open>
  The stream is the text written so far. \<open>fixed6\<close> is the text \<^verbatim>\<open>operator<<\<close>
  writes for a \<^verbatim>\<open>double\<close> once \<^verbatim>\<open>std::fixed\<close> and \<^verbatim>\<open>std::setprecision(6)\<close>
  are set; it belongs to the standard library and is a parameter.
\<close>

definition write_point :: "(real \<Rightarrow> string) \<Rightarrow> Particle list \<Rightarrow> nat \<Rightarrow> string \<Rightarrow> string" where
  "write_point fixed6 ps i out =
     out @ fixed6 (p_x (ps ! i)) @ '' '' @ fixed6 (p_y (ps ! i)) @ '' '' @ fixed6 0 @ nl"

definition write_vertex :: "nat \<Rightarrow> string \<Rightarrow> string" where
  "write_vertex i out = out @ ''1 '' @ show_nat i @ nl"

definition write_damage :: "(real \<Rightarrow> string) \<Rightarrow> real list \<Rightarrow> nat \<Rightarrow> string \<Rightarrow> string" where
  "write_damage fixed6 d i out = out @ fixed6 (d ! i) @ nl"

definition write_vtk :: "(real \<Rightarrow> string) \<Rightarrow> int32 \<Rightarrow> Particle list \<Rightarrow> real list \<Rightarrow> string" where
  "write_vtk fixed6 n ps d =
     (let out = ''# vtk DataFile Version 3.0'' @ nl;
          out = out @ ''Peridynamic porous pre-damage'' @ nl;
          out = out @ ''ASCII'' @ nl;
          out = out @ ''DATASET POLYDATA'' @ nl;
          out = out @ ''POINTS '' @ to_string n @ '' float'' @ nl;
          out = for_loop 0 (bound n) (write_point fixed6 ps) out;
          out = out @ ''VERTICES '' @ to_string n @ '' '' @ to_string (2 * n) @ nl;
          out = for_loop 0 (bound n) write_vertex out;
          out = out @ ''POINT_DATA '' @ to_string n @ nl;
          out = out @ ''SCALARS damage float 1'' @ nl;
          out = out @ ''LOOKUP_TABLE default'' @ nl
      in for_loop 0 (bound n) (write_damage fixed6 d) out)"

text \<open>Lines 227-228.\<close>

definition make_filename :: "real \<Rightarrow> real \<Rightarrow> error + string" where
  "make_filename Lx phi =
     (case static_cast_int Lx of
        Inl e \<Rightarrow> Inl e
      | Inr a \<Rightarrow>
     (case static_cast_int (phi * 100) of
        Inl e \<Rightarrow> Inl e
      | Inr b \<Rightarrow> Inr (''porosity_Lx'' @ to_string a @ ''_phi'' @ to_string b @ ''.vtk'')))"

subsection \<open>\<^verbatim>\<open>runSimulation\<close> (lines 97-264)\<close>

text \<open>
  The five numbers read from the console are arguments. \<open>can_open\<close> says whether
  \<^verbatim>\<open>std::ofstream vtk(filename)\<close> succeeds. The result keeps every intermediate
  value of the run next to the file that is written.
\<close>

record Result =
  grid :: Grid
  N_total :: "int32 list"
  pre :: PreDamage
  realizedPorosity :: real
  damage :: "real list"
  filename :: string
  vtk :: string

definition runSimulation ::
  "(nat \<Rightarrow> real) \<Rightarrow> (string \<Rightarrow> bool) \<Rightarrow> (real \<Rightarrow> string) \<Rightarrow>
   real \<Rightarrow> real \<Rightarrow> real \<Rightarrow> real \<Rightarrow> real \<Rightarrow> error + Result" where
  "runSimulation uniform01 can_open fixed6 Lx Ly dx phi m =
     (if invalid_input Lx Ly dx phi m then Inl InvalidParameter
      else
        (let d_phi = phi in
         case buildGrid Lx Ly dx of
           Inl e \<Rightarrow> Inl e
         | Inr g \<Rightarrow>
        (let delta = m * dx;
             delta2 = delta * delta
         in case vector (N g) 0 of
           Inl e \<Rightarrow> Inl e
         | Inr nt0 \<Rightarrow>
        (case vector (N g) 0 of
           Inl e \<Rightarrow> Inl e
         | Inr nb0 \<Rightarrow>
        (let nt = first_scan (N g) (particles g) delta2 nt0;
             s = second_scan (N g) (particles g) delta2 d_phi uniform01
                   \<lparr>N_broken = nb0, totalBonds = 0, brokenBonds = 0, gen = 0\<rparr>;
             rp = realized (brokenBonds s) (totalBonds s)
         in case vector (N g) 0 of
           Inl e \<Rightarrow> Inl e
         | Inr d0 \<Rightarrow>
        (let d = computeDamage (N g) nt (N_broken s) d0
         in case make_filename Lx phi of
           Inl e \<Rightarrow> Inl e
         | Inr name \<Rightarrow>
             if \<not> can_open name then Inl IOFailure
             else Inr \<lparr>grid = g, N_total = nt, pre = s, realizedPorosity = rp,
                        damage = d, filename = name,
                        vtk = write_vtk fixed6 (N g) (particles g) d\<rparr>))))))"

subsection \<open>The pairs a scan visits, and the bonds among them\<close>

text \<open>Both scans run the same two nested loops (lines 160-161 and 183-184). With a
  body that only records its indices, the loops give the pairs they visit, in order.\<close>

definition visited :: "nat \<Rightarrow> (nat \<times> nat) list" where
  "visited n = for_loop 0 n (\<lambda>i. for_loop (Suc i) n (\<lambda>j t. t @ [(i, j)])) []"

text \<open>The test of lines 162 and 185 on a pair of indices.\<close>

definition bonded :: "Particle list \<Rightarrow> real \<Rightarrow> nat \<times> nat \<Rightarrow> bool" where
  "bonded ps delta2 p \<longleftrightarrow> dist2 (ps ! fst p) (ps ! snd p) \<le> delta2"

definition bonds :: "Particle list \<Rightarrow> real \<Rightarrow> (nat \<times> nat) list" where
  "bonds ps delta2 = filter (bonded ps delta2) (visited (length ps))"

text \<open>How many pairs of a list have \<open>k\<close> as an endpoint.\<close>

definition incident :: "nat \<Rightarrow> nat \<times> nat \<Rightarrow> bool" where
  "incident k p \<longleftrightarrow> fst p = k \<or> snd p = k"

definition degree :: "(nat \<times> nat) list \<Rightarrow> nat \<Rightarrow> nat" where
  "degree ps k = length (filter (incident k) ps)"

text \<open>The bonds a scan breaks: the bond that takes the \<open>g\<close>-th draw is broken when
  that draw is below \<open>d_phi\<close>.\<close>

fun broken :: "(nat \<Rightarrow> real) \<Rightarrow> real \<Rightarrow> nat \<Rightarrow> (nat \<times> nat) list \<Rightarrow> (nat \<times> nat) list" where
  "broken uniform01 d_phi g [] = []"
| "broken uniform01 d_phi g (p # bs) =
     (if uniform01 g < d_phi
      then p # broken uniform01 d_phi (Suc g) bs
      else broken uniform01 d_phi (Suc g) bs)"

subsection \<open>The file format of the specification\<close>


subsection \<open>Sample collaborators and inputs\<close>

text \<open>A random source that alternates between 1/4 and 3/4, one that always returns 0,
  a file system that opens every file, and a six-decimal rendering that rounds to the
  nearest millionth.\<close>

definition alternating :: "nat \<Rightarrow> real" where
  "alternating k = (if even k then 1 / 4 else 3 / 4)"

definition zero_source :: "nat \<Rightarrow> real" where
  "zero_source k = 0"

definition any_file :: "string \<Rightarrow> bool" where
  "any_file name = True"

text \<open>The unit square: the lattice of \<open>Lx = Ly = dx = 1\<close>.\<close>

definition square4 :: "Particle list" where
  "square4 = [\<lparr>p_x = 0, p_y = 0\<rparr>, \<lparr>p_x = 1, p_y = 0\<rparr>,
              \<lparr>p_x = 0, p_y = 1\<rparr>, \<lparr>p_x = 1, p_y = 1\<rparr>]"


text \<open>One row of 65537 particles with spacing 1: the lattice of \<open>Lx = 65536\<close>,
  \<open>Ly = 1/2\<close>, \<open>dx = 1\<close>.\<close>

definition row65537 :: "Particle list" where
  "row65537 = map (\<lambda>k. \<lparr>p_x = real k, p_y = 0\<rparr>) [0..<65537]"

definition pad6 :: "string \<Rightarrow> string" where
  "pad6 ds = replicate (6 - length ds) CHR ''0'' @ ds"

definition sample_fixed6 :: "real \<Rightarrow> string" where
  "sample_fixed6 d =
     (let q = nat (round (\<bar>d\<bar> * 1000000));
          body = show_nat (q div 1000000) @ ''.'' @ pad6 (show_nat (q mod 1000000))
      in if d < 0 then CHR ''-'' # body else body)"

section \<open>Properties\<close>

subsection \<open>Loops\<close>

lemma for_loop_fold: "for_loop i n body s = fold body [i..<n] s"
proof (induction i n body s rule: for_loop.induct)
  case (1 i n body s)
  show ?case
  proof (cases "i < n")
    case True
    then show ?thesis
      using "1" by (subst for_loop.simps) (simp add: upt_conv_Cons)
  next
    case False
    then show ?thesis by (subst for_loop.simps) simp
  qed
qed

lemma for_loop_fold_fun: "for_loop i n body = fold body [i..<n]"
  by (rule ext) (rule for_loop_fold)

lemma fold_record: "fold (\<lambda>j t. t @ [f j]) xs t0 = t0 @ map f xs"
  by (induction xs arbitrary: t0) auto

lemma fold_record_fun: "fold (\<lambda>j t. t @ [f j]) xs = (\<lambda>t0. t0 @ map f xs)"
  by (rule ext) (rule fold_record)

lemma fold_rows:
  "fold (\<lambda>i. fold (g i) (h i)) xs s =
   fold (\<lambda>(i, j). g i j) (concat (map (\<lambda>i. map (Pair i) (h i)) xs)) s"
  by (induction xs arbitrary: s) (auto simp: fold_map comp_def)

lemma fold_append_each: "fold (\<lambda>i t. t @ f i) xs t0 = t0 @ concat (map f xs)"
  by (induction xs arbitrary: t0) auto

subsection \<open>The visited pairs\<close>

lemma visited_eq: "visited n = concat (map (\<lambda>i. map (Pair i) [Suc i..<n]) [0..<n])"
  by (simp add: visited_def for_loop_fold_fun fold_record_fun fold_append_each)

lemma nested_loops_visited:
  "for_loop 0 n (\<lambda>i. for_loop (Suc i) n (body i)) s = fold (\<lambda>(i, j). body i j) (visited n) s"
  by (simp add: visited_eq for_loop_fold_fun fold_rows)

lemma set_visited: "set (visited n) = {(i, j). i < j \<and> j < n}"
  by (fastforce simp: visited_eq)

lemma distinct_rows:
  "distinct xs \<Longrightarrow> (\<And>i. distinct (h i)) \<Longrightarrow>
   distinct (concat (map (\<lambda>i. map (Pair i) (h i)) xs))"
  by (induction xs) (auto simp: distinct_map inj_on_def)

lemma distinct_visited: "distinct (visited n)"
  unfolding visited_eq by (rule distinct_rows) simp_all

lemma gauss_less: "2 * (\<Sum>i<n. i) = n * (n - 1)" for n :: nat
  by (induction n) (auto simp: algebra_simps)

lemma length_visited: "2 * length (visited n) = n * (n - 1)"
proof -
  have "length (visited n) = (\<Sum>i<n. n - Suc i)"
    by (simp add: visited_eq length_concat comp_def sum_list_sum_nth atLeast0LessThan
        interv_sum_list_conv_sum_set_nat)
  also have "\<dots> = (\<Sum>i<n. i)"
    by (rule sum.nat_diff_reindex)
  finally show ?thesis
    by (simp add: gauss_less)
qed

subsection \<open>The first scan\<close>


lemma length_count_bond [simp]: "length (count_bond ps d2 i j nt) = length nt"
  by (simp add: count_bond_def Let_def)

lemma count_bond_nth:
  assumes "i < length nt" "j < length nt" "i \<noteq> j"
  shows "count_bond ps d2 i j nt ! k =
         nt ! k + (if bonded ps d2 (i, j) \<and> incident k (i, j) then 1 else 0)"
  using assms by (auto simp: count_bond_def Let_def bonded_def incident_def nth_list_update)

lemma degree_Nil [simp]: "degree [] k = 0"
  by (simp add: degree_def)

lemma degree_Cons: "degree (p # L) k = (if incident k p then 1 else 0) + degree L k"
  by (simp add: degree_def)

lemma fold_count_bond:
  assumes "\<forall>p\<in>set L. fst p < length nt \<and> snd p < length nt \<and> fst p \<noteq> snd p"
  shows "length (fold (\<lambda>(i, j). count_bond ps d2 i j) L nt) = length nt \<and>
         fold (\<lambda>(i, j). count_bond ps d2 i j) L nt ! k =
         nt ! k + of_nat (degree (filter (bonded ps d2) L) k)"
  using assms
proof (induction L arbitrary: nt)
  case Nil
  then show ?case by simp
next
  case (Cons p L)
  obtain i j where p: "p = (i, j)" by (cases p)
  have ij: "i < length nt" "j < length nt" "i \<noteq> j"
    using Cons.prems by (auto simp: p)
  have prem: "\<forall>p\<in>set L. fst p < length (count_bond ps d2 i j nt) \<and>
      snd p < length (count_bond ps d2 i j nt) \<and> fst p \<noteq> snd p"
    using Cons.prems by simp
  show ?case
    using Cons.IH [OF prem] count_bond_nth [OF ij, of ps d2 k]
    by (simp add: p degree_Cons)
qed

lemma sum_degree:
  assumes "\<forall>p\<in>set L. fst p < n \<and> snd p < n \<and> fst p \<noteq> snd p"
  shows "(\<Sum>k<n. degree L k) = 2 * length L"
  using assms
proof (induction L)
  case Nil
  then show ?case by simp
next
  case (Cons p L)
  obtain i j where p: "p = (i, j)" by (cases p)
  have ij: "i < n" "j < n" "i \<noteq> j"
    using Cons.prems by (auto simp: p)
  have "(\<Sum>k<n. if incident k p then 1 else 0 :: nat) = card ({..<n} \<inter> {k. incident k p})"
    by (subst sum.If_cases) simp_all
  also have "{..<n} \<inter> {k. incident k p} = {i, j}"
    using ij by (auto simp: incident_def p)
  also have "card {i, j} = 2"
    using ij by simp
  finally show ?case
    using Cons by (simp add: degree_Cons sum.distrib)
qed

lemma degree_card:
  assumes "distinct L"
  shows "degree L k = card {p \<in> set L. incident k p}"
  using assms by (simp add: degree_def distinct_card [symmetric] distinct_filter)


lemma degree_filter_le: "degree (filter P L) k \<le> degree L k"
  by (induction L) (auto simp: degree_Cons)

lemma degree_visited_less:
  assumes "k < n"
  shows "degree (visited n) k < n"
proof -
  have "degree (visited n) k = card {p \<in> set (visited n). incident k p}"
    by (rule degree_card) (rule distinct_visited)
  also have "{p \<in> set (visited n). incident k p} \<subseteq> (\<lambda>l. if l < k then (l, k) else (k, l)) ` ({..<n} - {k})"
    by (auto simp: set_visited incident_def image_iff)
  then have "card {p \<in> set (visited n). incident k p} \<le> card ({..<n} - {k})"
    by (meson card_image_le card_mono finite_Diff finite_imageI finite_lessThan le_trans)
  also have "\<dots> < n"
    using assms by simp
  finally show ?thesis .
qed

lemma bound_less: "bound n < 2 ^ 31"
proof -
  have "sint n < 2 ^ 31"
    using sint_lt [of n] by simp
  then show ?thesis
    by (simp add: bound_def nat_less_iff)
qed

lemma sint_of_int_small:
  "- (2 ^ 31) \<le> k \<Longrightarrow> k < 2 ^ 31 \<Longrightarrow> sint (word_of_int k :: int32) = k"
  by (simp add: sint_sbintrunc' signed_take_bit_int_eq_self)

lemma sint_of_nat_small:
  "k < 2 ^ 31 \<Longrightarrow> sint (word_of_nat k :: int32) = int k"
  using sint_of_int_small [of "int k"] by simp

lemma first_scan_fold:
  "first_scan n ps d2 nt0 = fold (\<lambda>(i, j). count_bond ps d2 i j) (visited (bound n)) nt0"
  by (simp add: first_scan_def nested_loops_visited)

lemma visited_in_range:
  "\<forall>p\<in>set (visited n). fst p < n \<and> snd p < n \<and> fst p \<noteq> snd p"
  by (auto simp: set_visited)

lemma bonds_in_range:
  "\<forall>p\<in>set (bonds ps d2). fst p < length ps \<and> snd p < length ps \<and> fst p \<noteq> snd p"
  by (auto simp: bonds_def set_visited)

lemma first_scan_nth:
  assumes "length ps = bound n" "length nt0 = bound n"
  shows "length (first_scan n ps d2 nt0) = bound n"
    and "first_scan n ps d2 nt0 ! k = nt0 ! k + word_of_nat (degree (bonds ps d2) k)"
  using fold_count_bond [of "visited (bound n)" nt0 ps d2 k] visited_in_range [of "bound n"] assms
  by (simp_all add: first_scan_fold bonds_def)

lemma degree_bonds_less:
  assumes "k < length ps"
  shows "degree (bonds ps d2) k < length ps"
  using degree_filter_le [of "bonded ps d2" "visited (length ps)" k] degree_visited_less [OF assms]
  by (simp add: bonds_def)

lemma first_scan_sint:
  assumes "length ps = bound n" "k < bound n"
  shows "sint (first_scan n ps d2 (replicate (bound n) 0) ! k) = int (degree (bonds ps d2) k)"
proof -
  have "degree (bonds ps d2) k < 2 ^ 31"
    using degree_bonds_less [of k ps d2] assms bound_less [of n] by simp
  then show ?thesis
    using assms by (simp add: first_scan_nth sint_of_nat_small)
qed

lemma sum_list_nth_less: "sum_list (map f xs) = (\<Sum>k<length xs. f (xs ! k))"
  by (simp add: sum_list_sum_nth atLeast0LessThan)

lemma first_scan_sum:
  assumes "length ps = bound n"
  shows "sum_list (map sint (first_scan n ps d2 (replicate (bound n) 0))) =
         2 * int (length (bonds ps d2))"
proof -
  have "sum_list (map sint (first_scan n ps d2 (replicate (bound n) 0))) =
        (\<Sum>k<bound n. int (degree (bonds ps d2) k))"
    using assms by (simp add: sum_list_nth_less first_scan_nth(1) first_scan_sint)
  also have "\<dots> = int (\<Sum>k<length ps. degree (bonds ps d2) k)"
    using assms by simp
  also have "\<dots> = 2 * int (length (bonds ps d2))"
    by (subst sum_degree [OF bonds_in_range]) simp
  finally show ?thesis .
qed

subsection \<open>The second scan\<close>

lemma gen_break_bond:
  "gen (break_bond ps d2 phi rs i j s) = (if bonded ps d2 (i, j) then Suc (gen s) else gen s)"
  by (simp add: break_bond_def bonded_def Let_def)

lemma totalBonds_break_bond:
  "totalBonds (break_bond ps d2 phi rs i j s) =
   (if bonded ps d2 (i, j) then totalBonds s + 1 else totalBonds s)"
  by (simp add: break_bond_def bonded_def Let_def)

lemma brokenBonds_break_bond:
  "brokenBonds (break_bond ps d2 phi rs i j s) =
   (if bonded ps d2 (i, j) \<and> rs (gen s) < phi then brokenBonds s + 1 else brokenBonds s)"
  by (simp add: break_bond_def bonded_def Let_def)

lemma length_N_broken_break_bond [simp]:
  "length (N_broken (break_bond ps d2 phi rs i j s)) = length (N_broken s)"
  by (simp add: break_bond_def Let_def)

lemma N_broken_break_bond:
  assumes "i < length (N_broken s)" "j < length (N_broken s)" "i \<noteq> j"
  shows "N_broken (break_bond ps d2 phi rs i j s) ! k =
         N_broken s ! k +
         (if bonded ps d2 (i, j) \<and> rs (gen s) < phi \<and> incident k (i, j) then 1 else 0)"
  using assms
  by (auto simp: break_bond_def bonded_def incident_def Let_def nth_list_update)

lemma fold_break_bond:
  assumes "\<forall>p\<in>set L. fst p < length (N_broken s) \<and> snd p < length (N_broken s) \<and> fst p \<noteq> snd p"
  shows "length (N_broken (fold (\<lambda>(i, j). break_bond ps d2 phi rs i j) L s)) = length (N_broken s) \<and>
         N_broken (fold (\<lambda>(i, j). break_bond ps d2 phi rs i j) L s) ! k =
           N_broken s ! k + word_of_nat (degree (broken rs phi (gen s) (filter (bonded ps d2) L)) k) \<and>
         totalBonds (fold (\<lambda>(i, j). break_bond ps d2 phi rs i j) L s) =
           totalBonds s + word_of_nat (length (filter (bonded ps d2) L)) \<and>
         brokenBonds (fold (\<lambda>(i, j). break_bond ps d2 phi rs i j) L s) =
           brokenBonds s + word_of_nat (length (broken rs phi (gen s) (filter (bonded ps d2) L))) \<and>
         gen (fold (\<lambda>(i, j). break_bond ps d2 phi rs i j) L s) =
           gen s + length (filter (bonded ps d2) L)"
  using assms
proof (induction L arbitrary: s)
  case Nil
  then show ?case by simp
next
  case (Cons p L)
  obtain i j where p: "p = (i, j)" by (cases p)
  let ?s1 = "break_bond ps d2 phi rs i j s"
  have ij: "i < length (N_broken s)" "j < length (N_broken s)" "i \<noteq> j"
    using Cons.prems by (auto simp: p)
  have prem: "\<forall>p\<in>set L. fst p < length (N_broken ?s1) \<and>
        snd p < length (N_broken ?s1) \<and> fst p \<noteq> snd p"
    using Cons.prems by simp
  note IH = Cons.IH [OF prem]
  note step = N_broken_break_bond [OF ij, of ps d2 phi rs k]
  show ?case
  proof (intro conjI)
    show "length (N_broken (fold (\<lambda>(i, j). break_bond ps d2 phi rs i j) (p # L) s)) =
          length (N_broken s)"
      using IH by (simp add: p)
    show "N_broken (fold (\<lambda>(i, j). break_bond ps d2 phi rs i j) (p # L) s) ! k =
           N_broken s ! k +
           word_of_nat (degree (broken rs phi (gen s) (filter (bonded ps d2) (p # L))) k)"
      using IH step by (simp add: p gen_break_bond degree_Cons)
    show "totalBonds (fold (\<lambda>(i, j). break_bond ps d2 phi rs i j) (p # L) s) =
           totalBonds s + word_of_nat (length (filter (bonded ps d2) (p # L)))"
      using IH by (simp add: p totalBonds_break_bond)
    show "brokenBonds (fold (\<lambda>(i, j). break_bond ps d2 phi rs i j) (p # L) s) =
           brokenBonds s +
           word_of_nat (length (broken rs phi (gen s) (filter (bonded ps d2) (p # L))))"
      using IH by (simp add: p brokenBonds_break_bond gen_break_bond)
    show "gen (fold (\<lambda>(i, j). break_bond ps d2 phi rs i j) (p # L) s) =
           gen s + length (filter (bonded ps d2) (p # L))"
      using IH by (simp add: p gen_break_bond)
  qed
qed

lemma degree_broken_le: "degree (broken rs phi g bs) k \<le> degree bs k"
  by (induction bs arbitrary: g) (auto simp: degree_Cons intro: le_SucI)

lemma length_broken_le: "length (broken rs phi g bs) \<le> length bs"
  by (induction bs arbitrary: g) (auto simp: le_SucI)

lemma set_broken: "set (broken rs phi g bs) \<subseteq> set bs"
  by (induction bs arbitrary: g) auto


lemma broken_all:
  assumes "\<And>k. rs k < 1"
  shows "broken rs 1 g bs = bs"
  by (induction bs arbitrary: g) (simp_all add: assms)

lemma broken_cong:
  assumes "\<forall>k<length bs. rs (g + k) = rs' (g + k)"
  shows "broken rs phi g bs = broken rs' phi g bs"
  using assms
proof (induction bs arbitrary: g)
  case Nil
  then show ?case by simp
next
  case (Cons p bs)
  have "rs g = rs' g"
    using Cons.prems by force
  moreover have "\<forall>k<length bs. rs (Suc g + k) = rs' (Suc g + k)"
    using Cons.prems by force
  ultimately show ?case
    using Cons.IH [of "Suc g"] by simp
qed

lemma second_scan_fold:
  "second_scan n ps d2 phi rs s0 =
   fold (\<lambda>(i, j). break_bond ps d2 phi rs i j) (visited (bound n)) s0"
  by (simp add: second_scan_def nested_loops_visited)

lemma second_scan_result:
  fixes ps d2 phi rs n
  assumes "length ps = bound n"
  defines "s \<equiv> second_scan n ps d2 phi rs (initial n)"
  shows "length (N_broken s) = bound n"
    and "totalBonds s = word_of_nat (length (bonds ps d2))"
    and "brokenBonds s = word_of_nat (length (broken rs phi 0 (bonds ps d2)))"
    and "gen s = length (bonds ps d2)"
  using fold_break_bond [of "visited (bound n)" "initial n" ps d2 phi rs 0]
    visited_in_range [of "bound n"] assms(1)
  by (simp_all add: s_def second_scan_fold bonds_def initial_def)

lemma second_scan_nth:
  assumes "length ps = bound n" "k < bound n"
  shows "N_broken (second_scan n ps d2 phi rs (initial n)) ! k =
         word_of_nat (degree (broken rs phi 0 (bonds ps d2)) k)"
  using fold_break_bond [of "visited (bound n)" "initial n" ps d2 phi rs k]
    visited_in_range [of "bound n"] assms
  by (simp add: second_scan_fold bonds_def initial_def)

lemma second_scan_sint:
  assumes "length ps = bound n" "k < bound n"
  shows "sint (N_broken (second_scan n ps d2 phi rs (initial n)) ! k) =
         int (degree (broken rs phi 0 (bonds ps d2)) k)"
proof -
  have "degree (broken rs phi 0 (bonds ps d2)) k \<le> degree (bonds ps d2) k"
    by (rule degree_broken_le)
  also have "\<dots> < 2 ^ 31"
    using degree_bonds_less [of k ps d2] assms bound_less [of n] by simp
  finally show ?thesis
    using assms by (simp add: second_scan_nth sint_of_nat_small)
qed

lemma broken_in_range:
  "\<forall>p\<in>set (broken rs phi g (bonds ps d2)).
     fst p < length ps \<and> snd p < length ps \<and> fst p \<noteq> snd p"
  using set_broken [of rs phi g "bonds ps d2"] bonds_in_range [of ps d2] by blast

lemma second_scan_sum:
  assumes "length ps = bound n"
  shows "sum_list (map sint (N_broken (second_scan n ps d2 phi rs (initial n)))) =
         2 * int (length (broken rs phi 0 (bonds ps d2)))"
proof -
  have "sum_list (map sint (N_broken (second_scan n ps d2 phi rs (initial n)))) =
        (\<Sum>k<bound n. int (degree (broken rs phi 0 (bonds ps d2)) k))"
    using assms by (simp add: sum_list_nth_less second_scan_result(1) second_scan_sint)
  also have "\<dots> = int (\<Sum>k<length ps. degree (broken rs phi 0 (bonds ps d2)) k)"
    using assms by simp
  also have "\<dots> = 2 * int (length (broken rs phi 0 (bonds ps d2)))"
    by (subst sum_degree [OF broken_in_range]) simp
  finally show ?thesis .
qed



subsection \<open>The damage field\<close>

lemma fold_update_upt:
  assumes "m \<le> length d"
  shows "length (fold (\<lambda>i d. d[i := f i]) [0..<m] d) = length d \<and>
         (\<forall>k. fold (\<lambda>i d. d[i := f i]) [0..<m] d ! k = (if k < m then f k else d ! k))"
  using assms
proof (induction m)
  case 0
  then show ?case by simp
next
  case (Suc m)
  then show ?case
    by (auto simp: nth_list_update less_Suc_eq)
qed

lemma damage_at_update:
  "damage_at nt nb i d =
   d[i := (if 0 < sint (nt ! i) then static_cast_double (nb ! i) / static_cast_double (nt ! i) else 0)]"
  by (simp add: damage_at_def)

lemma computeDamage_nth:
  assumes "length d0 = bound n" "i < bound n"
  shows "length (computeDamage n nt nb d0) = bound n"
    and "computeDamage n nt nb d0 ! i =
         (if 0 < sint (nt ! i)
          then real_of_int (sint (nb ! i)) / real_of_int (sint (nt ! i)) else 0)"
proof -
  have eq: "computeDamage n nt nb d0 =
        fold (\<lambda>i d. d[i := (if 0 < sint (nt ! i)
          then static_cast_double (nb ! i) / static_cast_double (nt ! i) else 0)]) [0..<bound n] d0"
    by (simp add: computeDamage_def for_loop_fold damage_at_update [abs_def])
  show "length (computeDamage n nt nb d0) = bound n"
    using assms fold_update_upt [of "bound n" d0] by (simp add: eq)
  show "computeDamage n nt nb d0 ! i =
         (if 0 < sint (nt ! i)
          then real_of_int (sint (nb ! i)) / real_of_int (sint (nt ! i)) else 0)"
    using assms fold_update_upt [of "bound n" d0] by (simp add: eq static_cast_double_def)
qed

lemma length_computeDamage:
  "length d0 = bound n \<Longrightarrow> length (computeDamage n nt nb d0) = bound n"
  using fold_update_upt [of "bound n" d0]
  by (simp add: computeDamage_def for_loop_fold damage_at_update [abs_def])

lemma unit_interval:
  fixes b t :: int
  assumes "0 \<le> b" "b \<le> t"
  shows "0 \<le> (if 0 < t then real_of_int b / real_of_int t else 0) \<and>
         (if 0 < t then real_of_int b / real_of_int t else 0) \<le> 1"
  using assms by (auto simp: divide_le_eq_1)

subsection \<open>The grid\<close>

lemma trunc_of_int [simp]: "trunc (real_of_int k) = k"
  by (simp add: trunc_def)

lemma static_cast_int_of_int:
  "- (2 ^ 31) \<le> k \<Longrightarrow> k < 2 ^ 31 \<Longrightarrow> static_cast_int (real_of_int k) = Inr (word_of_int k)"
  by (simp add: static_cast_int_def INT_MIN_def INT_MAX_def)


lemma row_major_less:
  fixes i j nx ny :: nat
  assumes "i < nx" "j < ny"
  shows "j * nx + i < nx * ny"
proof -
  have "j * nx + i < Suc j * nx"
    using assms by simp
  also have "\<dots> \<le> ny * nx"
    using assms by (intro mult_le_mono1) simp
  finally show ?thesis by (simp add: mult.commute)
qed

lemma row_major_inj:
  fixes i j i' j' nx :: nat
  assumes "i < nx" "i' < nx" "j * nx + i = j' * nx + i'"
  shows "j = j' \<and> i = i'"
proof -
  have "j = (j * nx + i) div nx"
    using assms(1) by simp
  also have "\<dots> = (j' * nx + i') div nx"
    by (simp only: assms(3))
  also have "\<dots> = j'"
    using assms(2) by simp
  finally show ?thesis using assms(3) by simp
qed

lemma Particle_update_both:
  "p\<lparr>p_x := a, p_y := b\<rparr> = \<lparr>p_x = a, p_y = b\<rparr>" for p :: Particle
  by (cases p) simp

lemma fill_particle_update:
  assumes "sint nx = int n" "j * n + i < length ps" "length ps < 2 ^ 31"
  shows "fill_particle dx nx j i (Inr ps) =
         Inr (ps[j * n + i := \<lparr>p_x = real i * dx, p_y = real j * dx\<rparr>])"
proof -
  define k where "k = j * n + i"
  have "nx = word_of_int (sint nx)"
    by simp
  then have nx: "nx = word_of_nat n"
    by (simp only: assms(1) of_int_of_nat_eq)
  have id: "(word_of_nat j :: int32) * nx + word_of_nat i = word_of_nat k"
    by (simp add: nx k_def)
  have k: "k < length ps" "k < 2 ^ 31"
    using assms by (simp_all add: k_def)
  have "sint (word_of_nat k :: int32) = int k"
    using k by (intro sint_of_nat_small)
  then have "fill_particle dx nx j i (Inr ps) =
      Inr (ps[k := \<lparr>p_x = real i * dx, p_y = real j * dx\<rparr>])"
    using k by (simp add: fill_particle_def id Let_def Particle_update_both)
  then show ?thesis
    by (simp add: k_def)
qed

lemma fill_row:
  assumes "sint nx = int n" "\<forall>i\<in>set xs. j * n + i < length ps" "length ps < 2 ^ 31"
  shows "fold (fill_particle dx nx j) xs (Inr ps) =
         Inr (fold (\<lambda>i ps. ps[j * n + i := \<lparr>p_x = real i * dx, p_y = real j * dx\<rparr>]) xs ps)"
  using assms
proof (induction xs arbitrary: ps)
  case Nil
  then show ?case by simp
next
  case (Cons i xs)
  then show ?case
    by (simp add: fill_particle_update)
qed

lemma length_fold_update [simp]: "length (fold (\<lambda>i ps. ps[f i := g i]) xs ps) = length ps"
  by (induction xs arbitrary: ps) simp_all

lemma fill_rows:
  assumes "sint nx = int n" "\<forall>j\<in>set ys. \<forall>i\<in>set xs. j * n + i < length ps" "length ps < 2 ^ 31"
  shows "fold (\<lambda>j. fold (fill_particle dx nx j) xs) ys (Inr ps) =
         Inr (fold (\<lambda>j. fold (\<lambda>i ps. ps[j * n + i := \<lparr>p_x = real i * dx, p_y = real j * dx\<rparr>]) xs) ys ps)"
  using assms
proof (induction ys arbitrary: ps)
  case Nil
  then show ?case by simp
next
  case (Cons j ys)
  then show ?case
    by (simp add: fill_row)
qed

lemma fold_update_untouched:
  "k \<notin> f ` set L \<Longrightarrow> fold (\<lambda>q ps. ps[f q := g q]) L ps ! k = ps ! k"
  by (induction L arbitrary: ps) auto

lemma fold_update_nth:
  assumes "distinct (map f L)" "\<forall>q\<in>set L. f q < length ps" "q \<in> set L"
  shows "fold (\<lambda>q ps. ps[f q := g q]) L ps ! f q = g q"
  using assms
proof (induction L arbitrary: ps)
  case Nil
  then show ?case by simp
next
  case (Cons a L)
  show ?case
  proof (cases "q \<in> set L")
    case True
    then show ?thesis
      using Cons.IH [of "ps[f a := g a]"] Cons.prems by simp
  next
    case False
    then have "q = a" "f a \<notin> f ` set L"
      using Cons.prems by auto
    then show ?thesis
      using Cons.prems by (simp add: fold_update_untouched)
  qed
qed

lemma fill_result_nth:
  fixes P :: "nat \<Rightarrow> nat \<Rightarrow> 'a"
  assumes "length ps = nx * ny" "i < nx" "j < ny"
  shows "fold (\<lambda>j. fold (\<lambda>i ps. ps[j * nx + i := P i j]) [0..<nx]) [0..<ny] ps ! (j * nx + i) = P i j"
proof -
  let ?rows = "concat (map (\<lambda>j. map (Pair j) [0..<nx]) [0..<ny])"
  let ?f = "\<lambda>q. fst q * nx + snd q"
  let ?g = "\<lambda>q. P (snd q) (fst q)"
  have eq: "fold (\<lambda>j. fold (\<lambda>i ps. ps[j * nx + i := P i j]) [0..<nx]) [0..<ny] ps =
        fold (\<lambda>q ps. ps[?f q := ?g q]) ?rows ps"
    by (simp add: fold_rows case_prod_unfold)
  have rows: "set ?rows = {j. j < ny} \<times> {i. i < nx}"
    by auto
  have "distinct ?rows"
    by (rule distinct_rows) simp_all
  moreover have "inj_on ?f (set ?rows)"
  proof (rule inj_onI)
    fix p q
    assume "p \<in> set ?rows" "q \<in> set ?rows" and e: "?f p = ?f q"
    then have "snd p < nx" "snd q < nx"
      by (simp_all only: rows mem_Times_iff mem_Collect_eq)
    then have "fst p = fst q \<and> snd p = snd q"
      using e by (rule row_major_inj)
    then show "p = q"
      by (simp add: prod_eq_iff)
  qed
  ultimately have d: "distinct (map ?f ?rows)"
    by (simp only: distinct_map)
  have b: "\<forall>q\<in>set ?rows. ?f q < length ps"
  proof
    fix q
    assume "q \<in> set ?rows"
    then have "snd q < nx" "fst q < ny"
      by (simp_all only: rows mem_Times_iff mem_Collect_eq)
    then show "?f q < length ps"
      unfolding assms(1) by (rule row_major_less)
  qed
  have m: "(j, i) \<in> set ?rows"
    using assms by (simp only: rows mem_Times_iff mem_Collect_eq fst_conv snd_conv simp_thms)
  show ?thesis
    using fold_update_nth [OF d b m, of ?g] by (simp add: eq)
qed

lemma fill_result:
  fixes P :: "nat \<Rightarrow> nat \<Rightarrow> 'a"
  assumes "length ps = nx * ny"
  shows "fold (\<lambda>j. fold (\<lambda>i ps. ps[j * nx + i := P i j]) [0..<nx]) [0..<ny] ps =
         map (\<lambda>k. P (k mod nx) (k div nx)) [0..<nx * ny]"
proof (rule nth_equalityI)
  show "length (fold (\<lambda>j. fold (\<lambda>i ps. ps[j * nx + i := P i j]) [0..<nx]) [0..<ny] ps) =
        length (map (\<lambda>k. P (k mod nx) (k div nx)) [0..<nx * ny])"
    using assms by (simp add: fold_rows case_prod_unfold)
next
  fix k
  assume "k < length (fold (\<lambda>j. fold (\<lambda>i ps. ps[j * nx + i := P i j]) [0..<nx]) [0..<ny] ps)"
  then have k: "k < nx * ny"
    using assms by (simp add: fold_rows case_prod_unfold)
  then have "0 < nx"
    by (cases nx) simp_all
  then have i: "k mod nx < nx"
    by simp
  have j: "k div nx < ny"
    using k by (simp add: less_mult_imp_div_less mult.commute)
  have "fold (\<lambda>j. fold (\<lambda>i ps. ps[j * nx + i := P i j]) [0..<nx]) [0..<ny] ps !
          (k div nx * nx + k mod nx) = P (k mod nx) (k div nx)"
    using assms i j by (rule fill_result_nth)
  then show "fold (\<lambda>j. fold (\<lambda>i ps. ps[j * nx + i := P i j]) [0..<nx]) [0..<ny] ps ! k =
        map (\<lambda>k. P (k mod nx) (k div nx)) [0..<nx * ny] ! k"
    using k by simp
qed

lemma bound_of_nat: "k < 2 ^ 31 \<Longrightarrow> bound (word_of_nat k) = k"
  by (simp add: bound_def sint_of_nat_small)

lemma vector_of_nat:
  "k < 2 ^ 31 \<Longrightarrow> vector (word_of_nat k) init = Inr (replicate k init)"
  by (simp add: vector_def bound_of_nat sint_of_nat_small)

lemma buildGrid_lattice:
  fixes Lx Ly dx :: real
  assumes pos: "0 < Lx" "0 < Ly" "0 < dx"
    and fits: "(\<lfloor>Lx / dx\<rfloor> + 1) * (\<lfloor>Ly / dx\<rfloor> + 1) \<le> INT_MAX"
  defines "nx \<equiv> nat (\<lfloor>Lx / dx\<rfloor> + 1)" and "ny \<equiv> nat (\<lfloor>Ly / dx\<rfloor> + 1)"
  shows "buildGrid Lx Ly dx =
         Inr \<lparr>Nx = word_of_nat nx, Ny = word_of_nat ny, N = word_of_nat (nx * ny),
              particles = map (\<lambda>k. \<lparr>p_x = real (k mod nx) * dx, p_y = real (k div nx) * dx\<rparr>)
                            [0..<nx * ny]\<rparr>"
proof -
  define a where "a = \<lfloor>Lx / dx\<rfloor>"
  define b where "b = \<lfloor>Ly / dx\<rfloor>"
  have a0: "0 \<le> a" and b0: "0 \<le> b"
    using pos by (simp_all add: a_def b_def)
  have ab: "(a + 1) * (b + 1) < 2 ^ 31"
    using fits by (simp add: a_def b_def INT_MAX_def)
  have "a + 1 \<le> (a + 1) * (b + 1)" "b + 1 \<le> (a + 1) * (b + 1)"
    using a0 b0 by (simp_all add: algebra_simps)
  then have a1: "a < 2 ^ 31" "a + 1 < 2 ^ 31" and b1: "b < 2 ^ 31" "b + 1 < 2 ^ 31"
    using ab by linarith+
  have nx: "int nx = a + 1" and ny: "int ny = b + 1"
    using a0 b0 by (simp_all add: nx_def ny_def a_def b_def)
  have nxy: "int (nx * ny) = (a + 1) * (b + 1)"
    by (simp add: nx ny)
  have "int nx < 2 ^ 31" "int ny < 2 ^ 31" "int (nx * ny) < 2 ^ 31"
    using a1 b1 ab by (simp_all only: nx ny nxy)
  then have small: "nx < 2 ^ 31" "ny < 2 ^ 31" "nx * ny < 2 ^ 31"
    by (simp_all only: of_nat_less_numeral_power_cancel_iff)
  have ca: "static_cast_int (real_of_int a) = Inr (word_of_int a)"
    using a0 a1 by (intro static_cast_int_of_int) simp_all
  have cb: "static_cast_int (real_of_int b) = Inr (word_of_int b)"
    using b0 b1 by (intro static_cast_int_of_int) simp_all
  have wa: "(word_of_int a :: int32) + 1 = word_of_nat nx"
  proof -
    have "(word_of_int a :: int32) + 1 = word_of_int (int nx)"
      by (simp add: nx)
    then show ?thesis by (simp only: of_int_of_nat_eq)
  qed
  have wb: "(word_of_int b :: int32) + 1 = word_of_nat ny"
  proof -
    have "(word_of_int b :: int32) + 1 = word_of_int (int ny)"
      by (simp add: ny)
    then show ?thesis by (simp only: of_int_of_nat_eq)
  qed
  have wn: "(word_of_nat nx :: int32) * word_of_nat ny = word_of_nat (nx * ny)"
    by simp
  have sx: "sint (word_of_nat nx :: int32) = int nx"
    using small by (intro sint_of_nat_small)
  let ?ps0 = "replicate (nx * ny) \<lparr>p_x = 0, p_y = 0\<rparr>"
  have inb: "\<forall>j\<in>set [0..<ny]. \<forall>i\<in>set [0..<nx]. j * nx + i < length ?ps0"
    using row_major_less [of _ nx _ ny] by simp
  have len: "length ?ps0 < 2 ^ 31"
    using small by simp
  have loops: "for_loop 0 ny (\<lambda>j. for_loop 0 nx (fill_particle dx (word_of_nat nx) j)) (Inr ?ps0) =
      Inr (map (\<lambda>k. \<lparr>p_x = real (k mod nx) * dx, p_y = real (k div nx) * dx\<rparr>) [0..<nx * ny])"
    unfolding for_loop_fold_fun fill_rows [OF sx inb len]
    by (subst fill_result) simp_all
  show ?thesis
    unfolding buildGrid_def a_def [symmetric] b_def [symmetric] ca cb
    by (simp only: sum.case Let_def wa wb wn vector_of_nat [OF small(3)]
        bound_of_nat [OF small(1)] bound_of_nat [OF small(2)] loops)
qed

subsection \<open>How a run ends\<close>

lemma fill_particle_Inr:
  "fill_particle dx nx j i acc = Inr ps' \<Longrightarrow> \<exists>ps. acc = Inr ps \<and> length ps' = length ps"
  by (auto simp: fill_particle_def Let_def split: sum.splits if_splits)

lemma fill_row_Inr:
  "fold (fill_particle dx nx j) xs acc = Inr ps' \<Longrightarrow> \<exists>ps. acc = Inr ps \<and> length ps' = length ps"
proof (induction xs arbitrary: acc)
  case Nil
  then show ?case by simp
next
  case (Cons i xs)
  then obtain ps1 where "fill_particle dx nx j i acc = Inr ps1" "length ps' = length ps1"
    by fastforce
  then show ?case
    using fill_particle_Inr [of dx nx j i acc ps1] by auto
qed

lemma fill_rows_Inr:
  "fold (\<lambda>j. fold (fill_particle dx nx j) xs) ys acc = Inr ps' \<Longrightarrow>
   \<exists>ps. acc = Inr ps \<and> length ps' = length ps"
proof (induction ys arbitrary: acc)
  case Nil
  then show ?case by simp
next
  case (Cons j ys)
  then obtain ps1 where "fold (fill_particle dx nx j) xs acc = Inr ps1" "length ps' = length ps1"
    by fastforce
  then show ?case
    using fill_row_Inr [of dx nx j xs acc ps1] by auto
qed

lemma fill_particle_Inl:
  "fill_particle dx nx j i acc = Inl e \<Longrightarrow> e = IndexOutOfRange \<or> acc = Inl e"
  by (auto simp: fill_particle_def Let_def split: sum.splits if_splits)

lemma fill_row_Inl:
  "fold (fill_particle dx nx j) xs acc = Inl e \<Longrightarrow> e = IndexOutOfRange \<or> acc = Inl e"
proof (induction xs arbitrary: acc)
  case Nil
  then show ?case by simp
next
  case (Cons i xs)
  then have "e = IndexOutOfRange \<or> fill_particle dx nx j i acc = Inl e"
    by simp
  then show ?case
    using fill_particle_Inl [of dx nx j i acc e] by auto
qed

lemma fill_rows_Inl:
  "fold (\<lambda>j. fold (fill_particle dx nx j) xs) ys acc = Inl e \<Longrightarrow>
   e = IndexOutOfRange \<or> acc = Inl e"
proof (induction ys arbitrary: acc)
  case Nil
  then show ?case by simp
next
  case (Cons j ys)
  then have "e = IndexOutOfRange \<or> fold (fill_particle dx nx j) xs acc = Inl e"
    by simp
  then show ?case
    using fill_row_Inl [of dx nx j xs acc e] by auto
qed

lemma static_cast_int_Inl: "static_cast_int d = Inl e \<Longrightarrow> e = FloatToIntOverflow"
  by (auto simp: static_cast_int_def split: if_splits)

lemma vector_Inl: "vector n init = Inl e \<Longrightarrow> e = LengthError"
  by (auto simp: vector_def split: if_splits)

lemma vector_Inr: "vector n init = Inr xs \<Longrightarrow> 0 \<le> sint n \<and> xs = replicate (bound n) init"
  by (auto simp: vector_def split: if_splits)

lemma buildGrid_Inl:
  "buildGrid Lx Ly dx = Inl e \<Longrightarrow> e \<in> {FloatToIntOverflow, LengthError, IndexOutOfRange}"
  unfolding buildGrid_def Let_def for_loop_fold_fun
  by (auto split: sum.splits dest!: static_cast_int_Inl vector_Inl fill_rows_Inl)

lemma buildGrid_Inr:
  assumes "buildGrid Lx Ly dx = Inr g"
  shows "0 \<le> sint (N g)" and "length (particles g) = bound (N g)"
  using assms unfolding buildGrid_def Let_def for_loop_fold_fun
  by (auto split: sum.splits dest!: vector_Inr fill_rows_Inr)

lemma make_filename_Inl: "make_filename Lx phi = Inl e \<Longrightarrow> e = FloatToIntOverflow"
  by (auto simp: make_filename_def split: sum.splits dest: static_cast_int_Inl)

lemma runSimulation_Inr:
  assumes "runSimulation rs can_open f Lx Ly dx phi m = Inr r"
  shows "\<not> invalid_input Lx Ly dx phi m"
    and "buildGrid Lx Ly dx = Inr (grid r)"
    and "N_total r = first_scan (N (grid r)) (particles (grid r)) (m * dx * (m * dx))
           (replicate (bound (N (grid r))) 0)"
    and "pre r = second_scan (N (grid r)) (particles (grid r)) (m * dx * (m * dx)) phi rs
           (initial (N (grid r)))"
    and "realizedPorosity r = realized (brokenBonds (pre r)) (totalBonds (pre r))"
    and "damage r = computeDamage (N (grid r)) (N_total r) (N_broken (pre r))
           (replicate (bound (N (grid r))) 0)"
    and "make_filename Lx phi = Inr (filename r)"
    and "can_open (filename r)"
    and "vtk r = write_vtk f (N (grid r)) (particles (grid r)) (damage r)"
  using assms unfolding runSimulation_def Let_def initial_def
  by (auto split: sum.splits if_splits dest!: vector_Inr)

subsection \<open>The unit square, evaluated\<close>

lemma bound_4 [simp]: "bound 4 = 4"
  by (simp add: bound_def)

lemma square_grid:
  "buildGrid 1 1 1 = Inr \<lparr>Nx = 2, Ny = 2, N = 4, particles = square4\<rparr>"
  by code_simp

lemma square_first_scan: "first_scan 4 square4 (9 / 4) (replicate 4 0) = [3, 3, 3, 3]"
  by code_simp

lemma square_second_scan:
  "second_scan 4 square4 (9 / 4) (1 / 2) alternating (initial 4) =
   \<lparr>N_broken = [2, 2, 0, 2], totalBonds = 6, brokenBonds = 3, gen = 6\<rparr>"
  by code_simp

lemma square_damage:
  "computeDamage 4 [3, 3, 3, 3] [2, 2, 0, 2] (replicate 4 0) = [2 / 3, 2 / 3, 0, 2 / 3]"
  by code_simp

lemma square_filename: "make_filename 1 (1 / 2) = Inr ''porosity_Lx1_phi50.vtk''"
  by code_simp


lemma square_run:
  "runSimulation alternating any_file sample_fixed6 1 1 1 (1 / 2) (3 / 2) =
   Inr \<lparr>grid = \<lparr>Nx = 2, Ny = 2, N = 4, particles = square4\<rparr>,
        N_total = [3, 3, 3, 3],
        pre = \<lparr>N_broken = [2, 2, 0, 2], totalBonds = 6, brokenBonds = 3, gen = 6\<rparr>,
        realizedPorosity = 1 / 2,
        damage = [2 / 3, 2 / 3, 0, 2 / 3],
        filename = ''porosity_Lx1_phi50.vtk'',
        vtk = write_vtk sample_fixed6 4 square4 [2 / 3, 2 / 3, 0, 2 / 3]\<rparr>"
proof -
  have v: "vector (4 :: int32) (0 :: int32) = Inr (replicate 4 0)"
    "vector (4 :: int32) (0 :: real) = Inr (replicate 4 0)"
    by (simp_all add: vector_def)
  have i: "\<lparr>N_broken = replicate 4 0, totalBonds = 0, brokenBonds = 0, gen = 0\<rparr> = initial 4"
    by (simp add: initial_def)
  have d: "(3 / 2 :: real) * (3 / 2) = 9 / 4"
    by simp
  have r: "realized 3 6 = 1 / 2"
    by (simp add: realized_def static_cast_double_def)
  show ?thesis
    unfolding runSimulation_def
    by (simp add: invalid_input_def square_grid v i d square_first_scan square_second_scan
        square_damage square_filename any_file_def r Let_def)
qed

lemma set_bonds:
  "set (bonds ps d2) = {(i, j). i < j \<and> j < length ps \<and> dist2 (ps ! i) (ps ! j) \<le> d2}"
  by (auto simp: bonds_def set_visited bonded_def)

lemma distinct_bonds: "distinct (bonds ps d2)"
  by (simp add: bonds_def distinct_visited)

lemma length_square4 [simp]: "length square4 = 4"
  by (simp add: square4_def)


subsection \<open>The file\<close>








subsection \<open>A row of 65537 particles\<close>

lemma length_row65537 [simp]: "length row65537 = 65537"
  by (simp add: row65537_def)

lemma bound_65537 [simp]: "bound 65537 = 65537"
  by (simp add: bound_def)

lemma row65537_nth: "k < 65537 \<Longrightarrow> row65537 ! k = \<lparr>p_x = real k, p_y = 0\<rparr>"
  by (simp add: row65537_def)

lemma row_grid:
  "buildGrid 65536 (1 / 2) 1 = Inr \<lparr>Nx = 65537, Ny = 1, N = 65537, particles = row65537\<rparr>"
proof -
  have h: "(0::real) < 65536" "(0::real) < 1 / 2" "(0::real) < 1"
    "(\<lfloor>65536 / (1::real)\<rfloor> + 1) * (\<lfloor>(1 / 2) / (1::real)\<rfloor> + 1) \<le> INT_MAX"
    by (simp_all add: INT_MAX_def)
  have nx: "nat (\<lfloor>65536 / (1::real)\<rfloor> + 1) = 65537" and ny: "nat (\<lfloor>(1 / 2) / (1::real)\<rfloor> + 1) = 1"
    by simp_all
  have "map (\<lambda>k. \<lparr>p_x = real (k mod 65537) * 1, p_y = real (k div 65537) * 1\<rparr>) [0..<65537 * 1] =
        row65537"
    unfolding row65537_def by (rule map_cong) simp_all
  then show ?thesis
    using buildGrid_lattice [OF h] unfolding nx ny by simp
qed

lemma row_all_bonded: "bonds row65537 4294967296 = visited 65537"
proof -
  have "bonded row65537 4294967296 p" if "p \<in> set (visited 65537)" for p
  proof -
    obtain i j where p: "p = (i, j)" by (cases p)
    have ij: "i < j" "j < 65537"
      using that by (simp_all add: p set_visited)
    then have "\<bar>real i - real j\<bar> \<le> 65536"
      by simp
    then have "(real i - real j) * (real i - real j) \<le> 65536 * 65536"
      using abs_le_square_iff [of "real i - real j" 65536] by (simp add: power2_eq_square)
    then show ?thesis
      using ij by (simp add: bonded_def p dist2_def row65537_nth Let_def)
  qed
  then show ?thesis
    by (simp add: bonds_def)
qed

lemma row_bond_number: "length (visited 65537) = 2147516416"
  using length_visited [of 65537] by simp

lemma row_wrapped: "sint (word_of_nat 2147516416 :: int32) = - 2147450880"
  by simp

lemma row_horizon: "(65536 :: real) * 1 * (65536 * 1) = 4294967296"
  by simp

lemma zero_source_unit: "\<forall>k. 0 \<le> zero_source k \<and> zero_source k < 1"
  by (simp add: zero_source_def)

section \<open>The claims\<close>






text \<open>
  C3. In a run, \<open>damage\<close> is computed from the two count arrays alone, it has one entry
  for each particle, \<open>damage[i] = BrokenBonds[i] / TotalBonds[i]\<close> when
  \<open>TotalBonds[i] > 0\<close> and \<open>damage[i] = 0\<close> otherwise, and every entry lies in \<open>[0, 1]\<close>.
\<close>

theorem damage_field:
  assumes "runSimulation uniform01 can_open fixed6 Lx Ly dx phi m = Inr r"
  shows "damage r = computeDamage (N (grid r)) (N_total r) (N_broken (pre r))
                      (replicate (bound (N (grid r))) 0) \<and>
         length (damage r) = bound (N (grid r)) \<and>
         (\<forall>i<bound (N (grid r)).
            damage r ! i =
              (if 0 < sint (N_total r ! i)
               then real_of_int (sint (N_broken (pre r) ! i)) / real_of_int (sint (N_total r ! i))
               else 0) \<and>
            0 \<le> damage r ! i \<and> damage r ! i \<le> 1)"
proof -
  let ?n = "N (grid r)"
  let ?ps = "particles (grid r)"
  let ?d2 = "m * dx * (m * dx)"
  note run = runSimulation_Inr [OF assms]
  have len: "length ?ps = bound ?n"
    using run(2) by (rule buildGrid_Inr)
  have d: "damage r = computeDamage ?n (N_total r) (N_broken (pre r)) (replicate (bound ?n) 0)"
    by (rule run(6))
  have l: "length (damage r) = bound ?n"
    unfolding d by (rule length_computeDamage) simp
  have e: "\<forall>i<bound ?n.
      damage r ! i =
        (if 0 < sint (N_total r ! i)
         then real_of_int (sint (N_broken (pre r) ! i)) / real_of_int (sint (N_total r ! i))
         else 0) \<and>
      0 \<le> damage r ! i \<and> damage r ! i \<le> 1"
  proof (intro allI impI)
    fix i
    assume i: "i < bound ?n"
    have t: "sint (N_total r ! i) = int (degree (bonds ?ps ?d2) i)"
      unfolding run(3) using len i by (rule first_scan_sint)
    have b: "sint (N_broken (pre r) ! i) = int (degree (broken uniform01 phi 0 (bonds ?ps ?d2)) i)"
      unfolding run(4) using len i by (rule second_scan_sint)
    have v: "damage r ! i =
        (if 0 < sint (N_total r ! i)
         then real_of_int (sint (N_broken (pre r) ! i)) / real_of_int (sint (N_total r ! i))
         else 0)"
      unfolding d using i by (intro computeDamage_nth) simp_all
    have "0 \<le> sint (N_broken (pre r) ! i)" "sint (N_broken (pre r) ! i) \<le> sint (N_total r ! i)"
      by (simp_all add: t b degree_broken_le)
    then show "damage r ! i =
        (if 0 < sint (N_total r ! i)
         then real_of_int (sint (N_broken (pre r) ! i)) / real_of_int (sint (N_total r ! i))
         else 0) \<and>
      0 \<le> damage r ! i \<and> damage r ! i \<le> 1"
      unfolding v using unit_interval by blast
  qed
  show ?thesis
    using d l e by (intro conjI)
qed


text \<open>An instance: the run on the unit square with \<open>phi = 1/2\<close>, \<open>m = 3/2\<close> and the
  alternating source.\<close>

theorem damage_field_witness:
  "\<exists>r. runSimulation alternating any_file sample_fixed6 1 1 1 (1 / 2) (3 / 2) = Inr r \<and>
       damage r = [2 / 3, 2 / 3, 0, 2 / 3] \<and>
       length (damage r) = bound (N (grid r)) \<and>
       0 \<le> damage r ! 0 \<and> damage r ! 0 \<le> 1"
proof -
  let ?r = "\<lparr>grid = \<lparr>Nx = 2, Ny = 2, N = 4, particles = square4\<rparr>,
        N_total = [3, 3, 3, 3],
        pre = \<lparr>N_broken = [2, 2, 0, 2], totalBonds = 6, brokenBonds = 3, gen = 6\<rparr>,
        realizedPorosity = 1 / 2,
        damage = [2 / 3, 2 / 3, 0, 2 / 3],
        filename = ''porosity_Lx1_phi50.vtk'',
        vtk = write_vtk sample_fixed6 4 square4 [2 / 3, 2 / 3, 0, 2 / 3]\<rparr>"
  have "length (damage ?r) = bound (N (grid ?r)) \<and>
        (\<forall>i<bound (N (grid ?r)). 0 \<le> damage ?r ! i \<and> damage ?r ! i \<le> 1)"
    using damage_field [OF square_run] by blast
  then have "length (damage ?r) = bound (N (grid ?r)) \<and> 0 \<le> damage ?r ! 0 \<and> damage ?r ! 0 \<le> 1"
    by simp
  then show ?thesis
    using square_run by (intro exI [of _ ?r]) simp
qed

text \<open>
  C4. The run ends with \<open>InvalidParameter\<close> exactly when one of \<open>Lx \<le> 0\<close>,
  \<open>Ly \<le> 0\<close>, \<open>dx \<le> 0\<close>, \<open>phi < 0\<close>, \<open>phi > 1\<close>, \<open>m \<le> 0\<close> holds, whatever the
  random source, the file system and the number rendering are: the check comes before
  the lattice, takes no draw and opens no file, and an error value carries no result.
  With valid parameters the run goes on and never ends with \<open>InvalidParameter\<close>.
\<close>

theorem invalid_parameter:
  "runSimulation uniform01 can_open fixed6 Lx Ly dx phi m = Inl InvalidParameter \<longleftrightarrow>
   Lx \<le> 0 \<or> Ly \<le> 0 \<or> dx \<le> 0 \<or> phi < 0 \<or> phi > 1 \<or> m \<le> 0"
proof
  assume failed: "runSimulation uniform01 can_open fixed6 Lx Ly dx phi m = Inl InvalidParameter"
  have "invalid_input Lx Ly dx phi m"
  proof (rule ccontr)
    assume valid: "\<not> invalid_input Lx Ly dx phi m"
    have grid: "buildGrid Lx Ly dx \<noteq> Inl InvalidParameter"
      using buildGrid_Inl [of Lx Ly dx InvalidParameter] by auto
    have counts: "vector n (0 :: int32) \<noteq> Inl InvalidParameter" for n
      using vector_Inl [of n "0 :: int32" InvalidParameter] by auto
    have field: "vector n (0 :: real) \<noteq> Inl InvalidParameter" for n
      using vector_Inl [of n "0 :: real" InvalidParameter] by auto
    have name: "make_filename Lx phi \<noteq> Inl InvalidParameter"
      using make_filename_Inl [of Lx phi InvalidParameter] by auto
    show False
      using failed valid grid counts field name
      unfolding runSimulation_def Let_def
      by (auto split: sum.splits if_splits)
  qed
  then show "Lx \<le> 0 \<or> Ly \<le> 0 \<or> dx \<le> 0 \<or> phi < 0 \<or> phi > 1 \<or> m \<le> 0"
    by (auto simp: invalid_input_def)
next
  assume "Lx \<le> 0 \<or> Ly \<le> 0 \<or> dx \<le> 0 \<or> phi < 0 \<or> phi > 1 \<or> m \<le> 0"
  then have "invalid_input Lx Ly dx phi m"
    by (auto simp: invalid_input_def)
  then show "runSimulation uniform01 can_open fixed6 Lx Ly dx phi m = Inl InvalidParameter"
    by (simp add: runSimulation_def)
qed

text \<open>Instances: \<open>dx = 0\<close>, \<open>Lx = -1\<close>, \<open>phi = 3/2\<close>, \<open>m = 0\<close>, each alone and all
  together; and the valid parameters of the unit square.\<close>

theorem invalid_parameter_witness:
  "runSimulation alternating any_file sample_fixed6 1 1 0 (1 / 2) (3 / 2) = Inl InvalidParameter \<and>
   runSimulation alternating any_file sample_fixed6 (- 1) 1 1 (1 / 2) (3 / 2) = Inl InvalidParameter \<and>
   runSimulation alternating any_file sample_fixed6 1 1 1 (3 / 2) (3 / 2) = Inl InvalidParameter \<and>
   runSimulation alternating any_file sample_fixed6 1 1 1 (1 / 2) 0 = Inl InvalidParameter \<and>
   runSimulation alternating any_file sample_fixed6 (- 1) 1 0 (3 / 2) 0 = Inl InvalidParameter \<and>
   runSimulation alternating any_file sample_fixed6 1 1 1 (1 / 2) (3 / 2) \<noteq> Inl InvalidParameter"
  by (simp add: invalid_parameter)

text \<open>
  C5, as the code has it. When the number of bonds fits an \<^verbatim>\<open>int\<close>, that is when the
  sum of \<open>TotalBonds[i]\<close> over all particles is at most \<open>2 * INT_MAX\<close>, the counter
  \<open>totalBonds\<close> of the second scan is half that sum. (The counter is an \<^verbatim>\<open>int\<close>
  incremented once for each bond; beyond \<open>INT_MAX\<close> bonds it has wrapped.)
\<close>

theorem total_bond_count:
  assumes "length ps = bound n"
    and "sum_list (map sint (first_scan n ps d2 (replicate (bound n) 0))) \<le> 2 * INT_MAX"
  shows "2 * sint (totalBonds (second_scan n ps d2 d_phi uniform01 (initial n))) =
         sum_list (map sint (first_scan n ps d2 (replicate (bound n) 0)))"
proof -
  have s: "sum_list (map sint (first_scan n ps d2 (replicate (bound n) 0))) =
        2 * int (length (bonds ps d2))"
    using assms(1) by (rule first_scan_sum)
  then have "length (bonds ps d2) < 2 ^ 31"
    using assms(2) by (simp add: INT_MAX_def)
  then have "sint (word_of_nat (length (bonds ps d2)) :: int32) = int (length (bonds ps d2))"
    by (rule sint_of_nat_small)
  then show ?thesis
    using assms(1) by (simp add: s second_scan_result)
qed

text \<open>An instance: the unit square has six bonds.\<close>

theorem total_bond_count_witness:
  "length square4 = bound 4 \<and>
   2 * sint (totalBonds (second_scan 4 square4 (9 / 4) (1 / 2) alternating (initial 4))) = 12"
proof -
  have h: "length square4 = bound 4"
    by simp
  have b: "sum_list (map sint (first_scan 4 square4 (9 / 4) (replicate (bound 4) 0))) \<le> 2 * INT_MAX"
    by (simp add: square_first_scan INT_MAX_def)
  show ?thesis
    using total_bond_count [OF h b, of "1 / 2" alternating] h
    by (simp add: square_first_scan)
qed

text \<open>Without the bound the statement fails. The lattice of \<open>Lx = 65536\<close>,
  \<open>Ly = 1/2\<close>, \<open>dx = 1\<close> is one row of 65537 particles; with \<open>m = 65536\<close> every pair
  is a bond, \<open>65537 * 65536 / 2 = 2147516416\<close> of them, 32769 more than \<open>INT_MAX\<close>.
  The sum of \<open>TotalBonds[i]\<close> is twice that number, and \<open>totalBonds\<close> has
  wrapped to a negative value.\<close>

theorem total_bond_count_counterexample:
  "buildGrid 65536 (1 / 2) 1 = Inr \<lparr>Nx = 65537, Ny = 1, N = 65537, particles = row65537\<rparr> \<and>
   sint (totalBonds (second_scan 65537 row65537 (65536 * 1 * (65536 * 1)) 0 zero_source
           (initial 65537))) = - 2147450880 \<and>
   sum_list (map sint (first_scan 65537 row65537 (65536 * 1 * (65536 * 1))
           (replicate (bound 65537) 0))) = 4295032832"
proof -
  have len: "length row65537 = bound 65537"
    by simp
  have "totalBonds (second_scan 65537 row65537 4294967296 0 zero_source (initial 65537)) =
        word_of_nat 2147516416"
    unfolding second_scan_result(2) [OF len] row_all_bonded row_bond_number ..
  then have "sint (totalBonds (second_scan 65537 row65537 4294967296 0 zero_source
        (initial 65537))) = - 2147450880"
    by (simp only: row_wrapped)
  moreover have "sum_list (map sint (first_scan 65537 row65537 4294967296
        (replicate (bound 65537) 0))) = 4295032832"
    unfolding first_scan_sum [OF len] row_all_bonded row_bond_number by simp
  ultimately show ?thesis
    unfolding row_horizon using row_grid by (intro conjI)
qed

text \<open>
  C6. After the second scan, \<open>0 \<le> BrokenBonds[k] \<le> TotalBonds[k]\<close> for every particle
  \<open>k\<close>. The scan takes one draw for each bond: the bonds are the visited pairs within
  the horizon, each of them once, and the number of draws taken is their number.
\<close>

theorem broken_within_total:
  assumes "length ps = bound n"
  shows "(\<forall>k<bound n.
            0 \<le> sint (N_broken (second_scan n ps d2 d_phi uniform01 (initial n)) ! k) \<and>
            sint (N_broken (second_scan n ps d2 d_phi uniform01 (initial n)) ! k) \<le>
              sint (first_scan n ps d2 (replicate (bound n) 0) ! k)) \<and>
         distinct (bonds ps d2) \<and>
         set (bonds ps d2) = {(i, j). i < j \<and> j < bound n \<and> dist2 (ps ! i) (ps ! j) \<le> d2} \<and>
         gen (second_scan n ps d2 d_phi uniform01 (initial n)) = length (bonds ps d2)"
proof (intro conjI allI impI)
  fix k
  assume k: "k < bound n"
  show "0 \<le> sint (N_broken (second_scan n ps d2 d_phi uniform01 (initial n)) ! k)"
    using assms k by (simp add: second_scan_sint)
  show "sint (N_broken (second_scan n ps d2 d_phi uniform01 (initial n)) ! k) \<le>
        sint (first_scan n ps d2 (replicate (bound n) 0) ! k)"
    using assms k by (simp add: second_scan_sint first_scan_sint degree_broken_le)
next
  show "distinct (bonds ps d2)"
    by (rule distinct_bonds)
  show "set (bonds ps d2) = {(i, j). i < j \<and> j < bound n \<and> dist2 (ps ! i) (ps ! j) \<le> d2}"
    by (simp add: set_bonds assms)
  show "gen (second_scan n ps d2 d_phi uniform01 (initial n)) = length (bonds ps d2)"
    using assms by (rule second_scan_result)
qed

text \<open>An instance: particle 0 of the unit square, and the six draws of its scan.\<close>

theorem broken_within_total_witness:
  "length square4 = bound 4 \<and>
   sint (N_broken (second_scan 4 square4 (9 / 4) (1 / 2) alternating (initial 4)) ! 0) \<le>
     sint (first_scan 4 square4 (9 / 4) (replicate (bound 4) 0) ! 0) \<and>
   gen (second_scan 4 square4 (9 / 4) (1 / 2) alternating (initial 4)) =
     length (bonds square4 (9 / 4))"
proof -
  have h: "length square4 = bound 4"
    by simp
  have "(0::nat) < bound 4"
    by simp
  then show ?thesis
    using broken_within_total [OF h, of "9 / 4" "1 / 2" alternating] h by blast
qed








text \<open>
  C10, as the code has it. When the number of broken bonds fits an \<^verbatim>\<open>int\<close>, that is
  when the sum of \<open>BrokenBonds[i]\<close> over all particles is at most \<open>2 * INT_MAX\<close>, the
  counter \<open>brokenBonds\<close> is half that sum. (Beyond \<open>INT_MAX\<close> broken bonds the
  counter has wrapped.)
\<close>

theorem broken_bond_count:
  assumes "length ps = bound n"
    and "sum_list (map sint (N_broken (second_scan n ps d2 d_phi uniform01 (initial n))))
           \<le> 2 * INT_MAX"
  shows "2 * sint (brokenBonds (second_scan n ps d2 d_phi uniform01 (initial n))) =
         sum_list (map sint (N_broken (second_scan n ps d2 d_phi uniform01 (initial n))))"
proof -
  have s: "sum_list (map sint (N_broken (second_scan n ps d2 d_phi uniform01 (initial n)))) =
        2 * int (length (broken uniform01 d_phi 0 (bonds ps d2)))"
    using assms(1) by (rule second_scan_sum)
  then have "length (broken uniform01 d_phi 0 (bonds ps d2)) < 2 ^ 31"
    using assms(2) by (simp add: INT_MAX_def)
  then have "sint (word_of_nat (length (broken uniform01 d_phi 0 (bonds ps d2))) :: int32) =
        int (length (broken uniform01 d_phi 0 (bonds ps d2)))"
    by (rule sint_of_nat_small)
  then show ?thesis
    using assms(1) by (simp add: s second_scan_result)
qed

text \<open>An instance: three of the six bonds of the unit square break.\<close>

theorem broken_bond_count_witness:
  "length square4 = bound 4 \<and>
   2 * sint (brokenBonds (second_scan 4 square4 (9 / 4) (1 / 2) alternating (initial 4))) = 6"
proof -
  have h: "length square4 = bound 4"
    by simp
  have b: "sum_list (map sint (N_broken (second_scan 4 square4 (9 / 4) (1 / 2) alternating (initial 4))))
           \<le> 2 * INT_MAX"
    by (simp add: square_second_scan INT_MAX_def)
  show ?thesis
    using broken_bond_count [OF h b] h
    by (simp add: square_second_scan)
qed

text \<open>Without the bound the statement fails. In the row of 65537 particles with
  \<open>m = 65536\<close>, \<open>d_phi = 1\<close> and every draw 0, all 2147516416 bonds break: the sum of
  \<open>BrokenBonds[i]\<close> is twice that number, and \<open>brokenBonds\<close> has wrapped to a negative
  value.\<close>

theorem broken_bond_count_counterexample:
  "buildGrid 65536 (1 / 2) 1 = Inr \<lparr>Nx = 65537, Ny = 1, N = 65537, particles = row65537\<rparr> \<and>
   sint (brokenBonds (second_scan 65537 row65537 (65536 * 1 * (65536 * 1)) 1 zero_source
           (initial 65537))) = - 2147450880 \<and>
   sum_list (map sint (N_broken (second_scan 65537 row65537 (65536 * 1 * (65536 * 1)) 1
           zero_source (initial 65537)))) = 4295032832"
proof -
  have len: "length row65537 = bound 65537"
    by simp
  have all: "broken zero_source 1 0 (visited 65537) = visited 65537"
    by (rule broken_all) (simp add: zero_source_def)
  have "brokenBonds (second_scan 65537 row65537 4294967296 1 zero_source (initial 65537)) =
        word_of_nat 2147516416"
    unfolding second_scan_result(3) [OF len] row_all_bonded all row_bond_number ..
  then have "sint (brokenBonds (second_scan 65537 row65537 4294967296 1 zero_source
        (initial 65537))) = - 2147450880"
    by (simp only: row_wrapped)
  moreover have "sum_list (map sint (N_broken (second_scan 65537 row65537 4294967296 1
        zero_source (initial 65537)))) = 4295032832"
    unfolding second_scan_sum [OF len] row_all_bonded all row_bond_number by simp
  ultimately show ?thesis
    unfolding row_horizon using row_grid by (intro conjI)
qed

end
